theory Spec2Isabelle
  imports Complex_Main "HOL-Library.Product_Lexorder"
begin

section \<open>Empirical CDFs: a shallow embedding of Cdf.py\<close>

text \<open>
  Numbers are exact rationals: the value of a float is not rounded, so every statement
  below is about the arithmetic the code writes down. The range of a float is modelled
  where the builders convert integers (\<open>py_float\<close> below). Counts are integers.
  Every exception the module can raise is a value of \<open>error\<close>; a function that can raise
  returns \<open>error + 'a\<close> with the exception on the left.
\<close>

datatype error =
  IndexError | ValueError | ZeroDivisionError | OverflowError | AttributeError | TypeError
  | UnboundLocalError

subsection \<open>Python sequences\<close>

text \<open>
  \<open>seq[i]\<close> on a Python list: indices from \<open>-len\<close> to \<open>len - 1\<close> are valid, negative ones
  count from the end, anything else raises IndexError.
\<close>

definition getitem :: "'a list \<Rightarrow> int \<Rightarrow> error + 'a" where
  "getitem l i =
     (if 0 \<le> i \<and> i < int (length l) then Inr (l ! nat i)
      else if i < 0 \<and> - int (length l) \<le> i then Inr (l ! nat (int (length l) + i))
      else Inl IndexError)"

text \<open>
  \<open>bisect.bisect(a, x)\<close> of the standard library (\<open>bisect_right\<close>), as it is written there:
  \<^verbatim>\<open>
  lo, hi = 0, len(a)
  while lo < hi:
      mid = (lo + hi) // 2
      if x < a[mid]: hi = mid
      else: lo = mid + 1
  return lo
  \<close>
  Every \<open>mid\<close> it reads is below \<open>hi \<le> len(a)\<close>, so the read never fails.
\<close>

function bisect_loop :: "'a::linorder list \<Rightarrow> 'a \<Rightarrow> nat \<Rightarrow> nat \<Rightarrow> nat" where
  "bisect_loop a x lo hi =
     (if lo < hi
      then (let mid = (lo + hi) div 2
            in if x < a ! mid then bisect_loop a x lo mid
               else bisect_loop a x (mid + 1) hi)
      else lo)"
  by pat_completeness auto
termination
  by (relation "measure (\<lambda>(a, x, lo, hi). hi - lo)") auto

definition bisect :: "'a::linorder list \<Rightarrow> 'a \<Rightarrow> nat" where
  "bisect a x = bisect_loop a x 0 (length a)"

subsection \<open>The class Cdf\<close>

text \<open>
  \<open>__init__\<close> binds exactly the three attributes \<open>xs\<close>, \<open>ps\<close> and \<open>name\<close>. The builders
  always pass lists for \<open>xs\<close> and \<open>ps\<close>.
\<close>

record Cdf =
  xs :: "rat list"
  ps :: "rat list"
  name :: string

definition Prob :: "Cdf \<Rightarrow> rat \<Rightarrow> error + rat" where
  "Prob self x =
     (case getitem (xs self) 0 of
        Inl e \<Rightarrow> Inl e
      | Inr x0 \<Rightarrow>
          if x < x0 then Inr 0
          else (let index = bisect (xs self) x
                in getitem (ps self) (int index - 1)))"

definition Value :: "Cdf \<Rightarrow> rat \<Rightarrow> error + rat" where
  "Value self p =
     (if p < 0 \<or> p > 1 then Inl ValueError
      else if p = 0 then getitem (xs self) 0
      else if p = 1 then getitem (xs self) (- 1)
      else (let index = bisect (ps self) p
            in case getitem (ps self) (int index - 1) of
                 Inl e \<Rightarrow> Inl e
               | Inr q \<Rightarrow>
                   if p = q then getitem (xs self) (int index - 1)
                   else getitem (xs self) (int index)))"

definition Percentile :: "Cdf \<Rightarrow> rat \<Rightarrow> error + rat" where
  "Percentile self p = Value self (p / 100)"

text \<open>The loop of \<open>Mean\<close> over \<open>zip(self.xs, self.ps)\<close>, carrying \<open>old_p\<close> and \<open>total\<close> (\<open>tot\<close>).\<close>

fun Mean_loop :: "(rat \<times> rat) list \<Rightarrow> rat \<Rightarrow> rat \<Rightarrow> rat" where
  "Mean_loop [] old_p tot = tot"
| "Mean_loop ((x, new_p) # rest) old_p tot =
     Mean_loop rest new_p (tot + (new_p - old_p) * x)"

definition Mean :: "Cdf \<Rightarrow> rat" where
  "Mean self = Mean_loop (zip (xs self) (ps self)) 0 0"

text \<open>
  The loop of \<open>Render\<close> over \<open>enumerate(self.ps)\<close>. \<open>self.xs[i]\<close> is read outside the
  \<open>try\<close>, so its IndexError escapes; the IndexError of \<open>self.xs[i+1]\<close> is caught, and then
  neither output list gets its second entry.
\<close>

fun Render_loop ::
  "rat list \<Rightarrow> (nat \<times> rat) list \<Rightarrow> rat list \<Rightarrow> rat list \<Rightarrow> error + (rat list \<times> rat list)" where
  "Render_loop sxs [] oxs ops = Inr (oxs, ops)"
| "Render_loop sxs ((i, p) # rest) oxs ops =
     (case getitem sxs (int i) of
        Inl e \<Rightarrow> Inl e
      | Inr xi \<Rightarrow>
          (case getitem sxs (int i + 1) of
             Inl e \<Rightarrow> Render_loop sxs rest (oxs @ [xi]) (ops @ [p])
           | Inr xn \<Rightarrow> Render_loop sxs rest (oxs @ [xi, xn]) (ops @ [p, p])))"

definition Render :: "Cdf \<Rightarrow> error + (rat list \<times> rat list)" where
  "Render self =
     (case getitem (xs self) 0 of
        Inl e \<Rightarrow> Inl e
      | Inr x0 \<Rightarrow> Render_loop (xs self) (enumerate 0 (ps self)) [x0] [0])"

subsection \<open>The builders\<close>

text \<open>
  The loop of \<open>MakeCdf\<close> over \<open>sorted(items)\<close>, carrying \<open>runsum\<close> and the two lists it
  appends to. Python sorts the pairs lexicographically, which is the order of
  \<open>rat \<times> int\<close> here.
\<close>

fun MakeCdf_loop ::
  "(rat \<times> int) list \<Rightarrow> int \<Rightarrow> rat list \<Rightarrow> int list \<Rightarrow> int \<times> rat list \<times> int list" where
  "MakeCdf_loop [] runsum vs cs = (runsum, vs, cs)"
| "MakeCdf_loop ((v, count) # rest) runsum vs cs =
     MakeCdf_loop rest (runsum + count) (vs @ [v]) (cs @ [runsum + count])"

text \<open>
  The comprehension \<open>[c/total for c in cs]\<close>: the division is evaluated once per element,
  and the first one raises when \<open>total\<close> is zero. In \<open>divide_each\<close> and \<open>MakeCdf\<close> the
  two conversions of an integer to a float, \<open>float(runsum)\<close> and the coercion of \<open>c\<close> in
  \<open>c/total\<close>, are exact and have no range: this is the builder in exact rational
  arithmetic. \<open>MakeCdf_in\<close> below is the same builder with the conversion as a parameter.
\<close>

fun divide_each :: "int list \<Rightarrow> rat \<Rightarrow> error + rat list" where
  "divide_each [] tot = Inr []"
| "divide_each (c # cs) tot =
     (if tot = 0 then Inl ZeroDivisionError
      else (case divide_each cs tot of
              Inl e \<Rightarrow> Inl e
            | Inr qs \<Rightarrow> Inr (of_int c / tot # qs)))"

definition MakeCdf :: "(rat \<times> int) list \<Rightarrow> string \<Rightarrow> error + Cdf" where
  "MakeCdf items nm =
     (case MakeCdf_loop (sort items) 0 [] [] of
        (runsum, vs, cs) \<Rightarrow>
          (case divide_each cs (of_int runsum) of
             Inl e \<Rightarrow> Inl e
           | Inr qs \<Rightarrow> Inr \<lparr>xs = vs, ps = qs, name = nm\<rparr>))"

text \<open>
  A dictionary is the list of its items in iteration order, with distinct keys.
  \<open>d.get(k, default)\<close> and \<open>d[k] = v\<close> are the two operations \<open>MakeCdfFromList\<close> uses;
  \<open>d.iteritems()\<close> enumerates the items (the module is Python 2, where dictionaries have
  this method). Nothing below depends on the order of enumeration, since \<open>MakeCdf\<close> sorts.
\<close>

type_synonym ('k, 'v) dict = "('k \<times> 'v) list"

definition dict_get :: "('k, 'v) dict \<Rightarrow> 'k \<Rightarrow> 'v \<Rightarrow> 'v" where
  "dict_get d k dflt = (case map_of d k of None \<Rightarrow> dflt | Some v \<Rightarrow> v)"

fun dict_setitem :: "('k, 'v) dict \<Rightarrow> 'k \<Rightarrow> 'v \<Rightarrow> ('k, 'v) dict" where
  "dict_setitem [] k v = [(k, v)]"
| "dict_setitem ((k', v') # d) k v =
     (if k' = k then (k, v) # d else (k', v') # dict_setitem d k v)"

definition iteritems :: "('k, 'v) dict \<Rightarrow> ('k \<times> 'v) list" where
  "iteritems d = d"

definition MakeCdfFromDict :: "(rat, int) dict \<Rightarrow> string \<Rightarrow> error + Cdf" where
  "MakeCdfFromDict d nm = MakeCdf (iteritems d) nm"

fun hist_loop :: "rat list \<Rightarrow> (rat, int) dict \<Rightarrow> (rat, int) dict" where
  "hist_loop [] hist = hist"
| "hist_loop (x # rest) hist = hist_loop rest (dict_setitem hist x (dict_get hist x 0 + 1))"

definition MakeCdfFromList :: "rat list \<Rightarrow> string \<Rightarrow> error + Cdf" where
  "MakeCdfFromList sq nm = MakeCdfFromDict (hist_loop sq []) nm"

subsection \<open>The builders and the range of floats\<close>

text \<open>
  The conversion of an integer to a float raises OverflowError when the integer does not
  round to a double: from \<open>2^1024 - 2^970\<close> on in magnitude, the midpoint between
  the largest double and \<open>2^1024\<close>. \<open>py_float\<close> is that conversion, with the value of
  an integer in range kept exact; \<open>exact_float\<close> is the conversion without a range.
\<close>

definition float_limit :: int where
  "float_limit = 2 ^ 1024 - 2 ^ 970"

definition py_float :: "int \<Rightarrow> error + rat" where
  "py_float n = (if float_limit \<le> \<bar>n\<bar> then Inl OverflowError else Inr (of_int n))"

definition exact_float :: "int \<Rightarrow> error + rat" where
  "exact_float n = Inr (of_int n)"

text \<open>
  The builders with the conversion \<open>fl\<close> as a parameter. \<open>total = float(runsum)\<close> converts
  first; in \<open>c/total\<close> the integer \<open>c\<close> is converted before the divisor is tested, so
  a count out of range raises OverflowError even when \<open>total\<close> is zero.
\<close>

fun divide_each_in :: "(int \<Rightarrow> error + rat) \<Rightarrow> int list \<Rightarrow> rat \<Rightarrow> error + rat list" where
  "divide_each_in fl [] tot = Inr []"
| "divide_each_in fl (c # cs) tot =
     (case fl c of
        Inl e \<Rightarrow> Inl e
      | Inr fc \<Rightarrow>
          if tot = 0 then Inl ZeroDivisionError
          else (case divide_each_in fl cs tot of
                  Inl e \<Rightarrow> Inl e
                | Inr qs \<Rightarrow> Inr (fc / tot # qs)))"

definition MakeCdf_in ::
  "(int \<Rightarrow> error + rat) \<Rightarrow> (rat \<times> int) list \<Rightarrow> string \<Rightarrow> error + Cdf" where
  "MakeCdf_in fl items nm =
     (case MakeCdf_loop (sort items) 0 [] [] of
        (runsum, vs, cs) \<Rightarrow>
          (case fl runsum of
             Inl e \<Rightarrow> Inl e
           | Inr tot \<Rightarrow>
               (case divide_each_in fl cs tot of
                  Inl e \<Rightarrow> Inl e
                | Inr qs \<Rightarrow> Inr \<lparr>xs = vs, ps = qs, name = nm\<rparr>)))"

definition MakeCdfFromDict_in ::
  "(int \<Rightarrow> error + rat) \<Rightarrow> (rat, int) dict \<Rightarrow> string \<Rightarrow> error + Cdf" where
  "MakeCdfFromDict_in fl d nm = MakeCdf_in fl (iteritems d) nm"

definition MakeCdfFromList_in ::
  "(int \<Rightarrow> error + rat) \<Rightarrow> rat list \<Rightarrow> string \<Rightarrow> error + Cdf" where
  "MakeCdfFromList_in fl sq nm = MakeCdfFromDict_in fl (hist_loop sq []) nm"

subsection \<open>ProbLess\<close>

text \<open>
  \<open>ProbLess\<close> reads the attribute \<open>data\<close> of both arguments and uses it as a sequence of
  (value, probability) pairs. Attribute lookup on an instance of \<open>Cdf\<close> finds the three
  names \<open>__init__\<close> binds, then the methods of the class body, and raises AttributeError
  for any other name of the module's own making.
\<close>

datatype pyvalue = Floats "rat list" | Text string | Pairs "(rat \<times> rat) list" | Method string

definition Cdf_methods :: "string list" where
  "Cdf_methods = [''Prob'', ''Value'', ''Percentile'', ''Mean'', ''Round'', ''Render'']"

definition Cdf_getattr :: "Cdf \<Rightarrow> string \<Rightarrow> error + pyvalue" where
  "Cdf_getattr self attr =
     (if attr = ''xs'' then Inr (Floats (xs self))
      else if attr = ''ps'' then Inr (Floats (ps self))
      else if attr = ''name'' then Inr (Text (name self))
      else if attr \<in> set Cdf_methods then Inr (Method attr)
      else Inl AttributeError)"

text \<open>
  \<open>a, b = seq[i]\<close>: the subscript, then the unpacking into two names. Only an entry that
  is a pair unpacks; a float is not iterable (TypeError), a one-character string has too
  few values (ValueError), and a method cannot be subscripted (TypeError).
\<close>

fun pair_at :: "pyvalue \<Rightarrow> int \<Rightarrow> error + (rat \<times> rat)" where
  "pair_at (Pairs d) i = getitem d i"
| "pair_at (Floats l) i = (case getitem l i of Inl e \<Rightarrow> Inl e | Inr v \<Rightarrow> Inl TypeError)"
| "pair_at (Text s) i = (case getitem s i of Inl e \<Rightarrow> Inl e | Inr ch \<Rightarrow> Inl ValueError)"
| "pair_at (Method m) i = Inl TypeError"

fun len :: "pyvalue \<Rightarrow> error + int" where
  "len (Pairs d) = Inr (int (length d))"
| "len (Floats l) = Inr (int (length l))"
| "len (Text s) = Inr (int (length s))"
| "len (Method m) = Inl TypeError"

text \<open>
  The inner loop \<open>while x <= x2\<close>. \<open>x\<close> starts at minus infinity, which is \<open>None\<close> here,
  and \<open>y\<close> is unbound until the first pass, which is \<open>None\<close> too. The first argument is
  the result of the lookup \<open>cdf2.data\<close>, which the loop evaluates on every pass.
\<close>

function ProbLess_inner ::
  "error + pyvalue \<Rightarrow> rat \<Rightarrow> nat \<Rightarrow> rat option \<Rightarrow> rat option
     \<Rightarrow> error + (nat \<times> rat option \<times> rat option)" where
  "ProbLess_inner data2 x2 j x y =
     (if (case x of None \<Rightarrow> True | Some v \<Rightarrow> v \<le> x2)
      then (case data2 of
              Inl e \<Rightarrow> Inl e
            | Inr d2 \<Rightarrow>
                (case pair_at d2 (int j) of
                   Inl e \<Rightarrow> Inl e
                 | Inr (x', y') \<Rightarrow>
                     (case len d2 of
                        Inl e \<Rightarrow> Inl e
                      | Inr n \<Rightarrow>
                          if int j = n - 1 then Inr (j, Some x', Some y')
                          else ProbLess_inner data2 x2 (j + 1) (Some x') (Some y'))))
      else Inr (j, x, y))"
  by pat_completeness auto
termination
proof (relation "measure (\<lambda>(data2, x2, j, x, y).
                   case data2 of Inr (Pairs d) \<Rightarrow> length d - j | _ \<Rightarrow> 0)")
  show "wf (measure (\<lambda>(data2, x2, j, x, y).
              case data2 of Inr (Pairs d) \<Rightarrow> length d - j | _ \<Rightarrow> 0))"
    by simp
next
  fix data2 :: "error + pyvalue" and x2 :: rat and j :: nat
    and x y :: "rat option" and d2 p x' y' n
  assume d: "data2 = Inr d2" and g: "pair_at d2 (int j) = Inr p"
  from g obtain l where l: "d2 = Pairs l"
    by (cases d2) (auto split: sum.splits)
  with g have "j < length l"
    by (auto simp: getitem_def split: if_splits)
  with d l show
    "((data2, x2, j + 1, Some x', Some y'), (data2, x2, j, x, y))
       \<in> measure (\<lambda>(data2, x2, j, x, y).
            case data2 of Inr (Pairs d) \<Rightarrow> length d - j | _ \<Rightarrow> 0)"
    by simp
qed

text \<open>
  The outer loop \<open>while True\<close>, carrying \<open>total\<close> (\<open>tot\<close>), \<open>i\<close>, \<open>j\<close>, \<open>x\<close> and \<open>y\<close>. The
  first two arguments are the results of the lookups \<open>cdf1.data\<close> and \<open>cdf2.data\<close>. The
  loop leaves by \<open>break\<close> when \<open>i\<close> reaches \<open>len(cdf1.data) - 1\<close>, or by an exception.
\<close>

function ProbLess_loop ::
  "error + pyvalue \<Rightarrow> error + pyvalue
     \<Rightarrow> rat \<Rightarrow> nat \<Rightarrow> nat \<Rightarrow> rat option \<Rightarrow> rat option \<Rightarrow> error + rat" where
  "ProbLess_loop data1 data2 tot i j x y =
     (case data1 of
        Inl e \<Rightarrow> Inl e
      | Inr d1 \<Rightarrow>
          (case pair_at d1 (int i) of
             Inl e \<Rightarrow> Inl e
           | Inr (unused_x1, p1) \<Rightarrow>
               (case pair_at d1 (int i + 1) of
                  Inl e \<Rightarrow> Inl e
                | Inr (x2, p2) \<Rightarrow>
                    (case ProbLess_inner data2 x2 j x y of
                       Inl e \<Rightarrow> Inl e
                     | Inr (j', x', None) \<Rightarrow> Inl UnboundLocalError
                     | Inr (j', x', Some y') \<Rightarrow>
                         (let tot' = tot + (p2 - p1) * (1 - y')
                          in case len d1 of
                               Inl e \<Rightarrow> Inl e
                             | Inr n \<Rightarrow>
                                 if int (i + 1) = n - 1 then Inr tot'
                                 else ProbLess_loop data1 data2 tot' (i + 1) j' x' (Some y'))))))"
  by pat_completeness auto
termination
proof (relation "measure (\<lambda>(data1, data2, tot, i, j, x, y).
                   case data1 of Inr (Pairs d) \<Rightarrow> length d - i | _ \<Rightarrow> 0)")
  show "wf (measure (\<lambda>(data1, data2, tot, i, j, x, y).
              case data1 of Inr (Pairs d) \<Rightarrow> length d - i | _ \<Rightarrow> 0))"
    by simp
next
  fix data1 data2 :: "error + pyvalue" and tot :: rat and i j :: nat
    and x y :: "rat option" and d1 pa pb and j' :: nat and x' :: "rat option" and y' tot' n
  assume d: "data1 = Inr d1" and g: "pair_at d1 (int i + 1) = Inr pb"
  from g obtain l where l: "d1 = Pairs l"
    by (cases d1) (auto split: sum.splits)
  with g have "i + 1 < length l"
    by (auto simp: getitem_def split: if_splits)
  with d l show
    "((data1, data2, tot', i + 1, j', x', Some y'), (data1, data2, tot, i, j, x, y))
       \<in> measure (\<lambda>(data1, data2, tot, i, j, x, y).
            case data1 of Inr (Pairs d) \<Rightarrow> length d - i | _ \<Rightarrow> 0)"
    by simp
qed

definition ProbLess :: "Cdf \<Rightarrow> Cdf \<Rightarrow> error + rat" where
  "ProbLess cdf1 cdf2 =
     ProbLess_loop (Cdf_getattr cdf1 ''data'') (Cdf_getattr cdf2 ''data'') 0 0 0 None None"

subsection \<open>Notions used to state the properties\<close>

text \<open>The cumulative counts \<open>MakeCdf\<close> accumulates, starting from a running sum \<open>r\<close>.\<close>

fun running_sums :: "int \<Rightarrow> int list \<Rightarrow> int list" where
  "running_sums r [] = []"
| "running_sums r (c # cs) = (r + c) # running_sums (r + c) cs"

text \<open>
  The rightmost insertion point of \<open>x\<close> in an ascending sequence, in the words of the
  specification: the position after all the leading entries that are at most \<open>x\<close>.
\<close>

definition insertion_point :: "'a::linorder list \<Rightarrow> 'a \<Rightarrow> nat" where
  "insertion_point l x = length (takeWhile (\<lambda>v. v \<le> x) l)"

text \<open>
  The invariants of a Cdf that the data model states: values strictly ascending, cumulative
  probabilities non-decreasing and within \<open>[0, 1]\<close>, as many of them as values, and the
  last one equal to 1.
\<close>

definition builder_invariants :: "Cdf \<Rightarrow> bool" where
  "builder_invariants c \<longleftrightarrow>
     sorted_wrt (<) (xs c) \<and> sorted (ps c) \<and> (\<forall>q \<in> set (ps c). 0 \<le> q \<and> q \<le> 1)
     \<and> length (ps c) = length (xs c) \<and> ps c \<noteq> [] \<and> last (ps c) = 1"

text \<open>
  The index of the support value that \<open>Value\<close> returns for \<open>0 < p < 1\<close>: one before the
  insertion point of \<open>p\<close> among the cumulative probabilities when the entry there equals
  \<open>p\<close>, the insertion point itself otherwise.
\<close>

definition Value_index :: "rat list \<Rightarrow> rat \<Rightarrow> nat" where
  "Value_index l p =
     (let r = insertion_point l p in if 0 < r \<and> l ! (r - 1) = p then r - 1 else r)"

text \<open>
  The sum of the values of a frequency table, each value weighted by its count.
\<close>

definition weighted_sum :: "(rat \<times> int) list \<Rightarrow> rat" where
  "weighted_sum its = sum_list (map (\<lambda>(v, n). of_int n * v) its)"

text \<open>A sequence with each entry written twice in a row.\<close>

definition doubled :: "'a list \<Rightarrow> 'a list" where
  "doubled l = concat (map (\<lambda>v. [v, v]) l)"

section \<open>The builder in closed form\<close>

lemma MakeCdf_loop_eq:
  "MakeCdf_loop its r vs cs =
     (r + sum_list (map snd its), vs @ map fst its, cs @ running_sums r (map snd its))"
  by (induction its arbitrary: r vs cs) (auto simp: algebra_simps)

lemma divide_each_eq:
  "divide_each cs t =
     (if cs \<noteq> [] \<and> t = 0 then Inl ZeroDivisionError else Inr (map (\<lambda>c. of_int c / t) cs))"
  by (induction cs) auto

lemma length_running_sums [simp]: "length (running_sums r cs) = length cs"
  by (induction cs arbitrary: r) auto

lemma sum_list_map_insort_key:
  "sum_list (map f (insort_key g a l)) = f a + sum_list (map f l)"
  for f :: "'a \<Rightarrow> 'b::comm_monoid_add"
  by (induction l) (auto simp: ac_simps)

lemma sum_list_map_sort_key:
  "sum_list (map f (sort_key g l)) = sum_list (map f l)"
  for f :: "'a \<Rightarrow> 'b::comm_monoid_add"
  by (induction l) (auto simp: sum_list_map_insort_key)

lemma MakeCdf_eq:
  "MakeCdf items nm =
     (if items \<noteq> [] \<and> sum_list (map snd items) = 0 then Inl ZeroDivisionError
      else Inr \<lparr>xs = map fst (sort items),
                ps = map (\<lambda>c. of_int c / of_int (sum_list (map snd items)))
                       (running_sums 0 (map snd (sort items))),
                name = nm\<rparr>)"
proof -
  have "running_sums 0 (map snd (sort items)) = [] \<longleftrightarrow> items = []"
    by (metis length_0_conv length_map length_running_sums length_sort)
  then show ?thesis
    by (simp add: MakeCdf_def MakeCdf_loop_eq divide_each_eq sum_list_map_sort_key)
qed

section \<open>Empty input to the builder\<close>

text \<open>
  C9: \<open>MakeCdf\<close> applied to an empty pair sequence returns a Cdf whose values and
  cumulative probabilities are both empty, and raises nothing: the list of running sums is
  empty, so the comprehension performs no division by the zero total.
\<close>

theorem MakeCdf_empty_returns_empty_Cdf:
  "MakeCdf [] nm = Inr \<lparr>xs = [], ps = [], name = nm\<rparr>
   \<and> MakeCdf_loop (sort []) 0 [] [] = (0, [], [])
   \<and> divide_each [] (of_int 0) = Inr []"
  by (simp add: MakeCdf_def)

text \<open>
  C3 as the spec states it, that building from an empty pair sequence fails and returns
  no Cdf, is false: the call returns the empty Cdf.
\<close>

theorem MakeCdf_empty_counterexample:
  "MakeCdf [] ''cdf'' = Inr \<lparr>xs = [], ps = [], name = ''cdf''\<rparr>
   \<and> MakeCdf [] ''cdf'' \<noteq> Inl ZeroDivisionError"
  by (simp add: MakeCdf_def)

text \<open>
  C3, amended: building from an empty pair sequence does not fail: it returns a Cdf
  whose values and cumulative probabilities are both empty. This holds in exact
  arithmetic and with the range of floats alike, since \<open>float(0)\<close> converts.
\<close>

theorem MakeCdf_empty_does_not_fail:
  "(\<forall>e. MakeCdf [] nm \<noteq> Inl e)
   \<and> (\<exists>c. MakeCdf [] nm = Inr c \<and> xs c = [] \<and> ps c = [])
   \<and> MakeCdf_in py_float [] nm = Inr \<lparr>xs = [], ps = [], name = nm\<rparr>"
  by (simp add: MakeCdf_def MakeCdf_in_def py_float_def float_limit_def)

section \<open>ProbLess on the objects of this module\<close>

text \<open>
  C10: \<open>ProbLess\<close> reads the attribute \<open>data\<close> of its arguments, which no Cdf object has
  (the class binds \<open>xs\<close>, \<open>ps\<close> and \<open>name\<close> only); it raises AttributeError on every pair
  of Cdf objects, whatever their support.
\<close>

theorem ProbLess_raises_AttributeError:
  "ProbLess cdf1 cdf2 = Inl AttributeError"
  unfolding ProbLess_def
  by (subst ProbLess_loop.simps) (simp add: Cdf_getattr_def Cdf_methods_def)

text \<open>
  The sweep itself runs on objects that do carry \<open>data\<close>: on these two sequences of pairs
  it adds \<open>(1/2 - 1/4) * (1 - 3/4)\<close> and \<open>(1 - 1/2) * (1 - 1)\<close>.
\<close>

lemma ProbLess_loop_on_pairs:
  "ProbLess_loop (Inr (Pairs [(1, 1 / 4), (2, 1 / 2), (3, 1)]))
     (Inr (Pairs [(1, 1 / 4), (2, 1 / 2), (3, 3 / 4), (4, 1)])) 0 0 0 None None = Inr (1 / 16)"
  by (simp add: getitem_def)

text \<open>
  C1 at a concrete input: two Cdfs built from samples, each with three ascending support
  points. \<open>ProbLess\<close> returns no sum; it raises AttributeError.
\<close>

theorem ProbLess_on_built_Cdfs:
  "MakeCdfFromList [1, 2, 2, 3, 3, 3] ''a'' = Inr \<lparr>xs = [1, 2, 3], ps = [1 / 6, 1 / 2, 1], name = ''a''\<rparr>
   \<and> MakeCdfFromList [2, 3, 4, 4] ''b'' = Inr \<lparr>xs = [2, 3, 4], ps = [1 / 4, 1 / 2, 1], name = ''b''\<rparr>
   \<and> ProbLess \<lparr>xs = [1, 2, 3], ps = [1 / 6, 1 / 2, 1], name = ''a''\<rparr>
               \<lparr>xs = [2, 3, 4], ps = [1 / 4, 1 / 2, 1], name = ''b''\<rparr> = Inl AttributeError"
proof -
  have "MakeCdfFromList [1, 2, 2, 3, 3, 3] ''a''
          = Inr \<lparr>xs = [1, 2, 3], ps = [1 / 6, 1 / 2, 1], name = ''a''\<rparr>"
    by (simp add: MakeCdfFromList_def MakeCdfFromDict_def iteritems_def dict_get_def MakeCdf_def)
  moreover have "MakeCdfFromList [2, 3, 4, 4] ''b''
          = Inr \<lparr>xs = [2, 3, 4], ps = [1 / 4, 1 / 2, 1], name = ''b''\<rparr>"
    by (simp add: MakeCdfFromList_def MakeCdfFromDict_def iteritems_def dict_get_def MakeCdf_def)
  moreover have "ProbLess \<lparr>xs = [1, 2, 3], ps = [1 / 6, 1 / 2, 1], name = ''a''\<rparr>
               \<lparr>xs = [2, 3, 4], ps = [1 / 4, 1 / 2, 1], name = ''b''\<rparr> = Inl AttributeError"
    unfolding ProbLess_def
    by (subst ProbLess_loop.simps) (simp add: Cdf_getattr_def Cdf_methods_def)
  ultimately show ?thesis by simp
qed

section \<open>Binary search and the two lookups\<close>

lemma insertion_point_eqI:
  assumes "r \<le> length a" and "\<And>k. k < r \<Longrightarrow> a ! k \<le> x"
    and "r < length a \<Longrightarrow> x < a ! r"
  shows "insertion_point a x = r"
proof -
  have "takeWhile (\<lambda>v. v \<le> x) a = take r a"
    using assms by (intro takeWhile_eq_take_P_nth) (auto simp: not_le)
  with assms(1) show ?thesis
    by (simp add: insertion_point_def)
qed

lemma bisect_loop_sorted:
  shows "sorted a \<Longrightarrow> lo \<le> hi \<Longrightarrow> hi \<le> length a \<Longrightarrow> (\<forall>k<lo. a ! k \<le> x)
     \<Longrightarrow> (\<forall>k. hi \<le> k \<and> k < length a \<longrightarrow> x < a ! k)
     \<Longrightarrow> bisect_loop a x lo hi = insertion_point a x"
proof (induction a x lo hi rule: bisect_loop.induct)
  case (1 a x lo hi)
  note srt = \<open>sorted a\<close>
  show ?case
  proof (cases "lo < hi")
    case False
    with "1.prems" have "lo = hi" by simp
    with "1.prems" have "insertion_point a x = lo"
      by (intro insertion_point_eqI) auto
    with False show ?thesis by simp
  next
    case True
    define mid where "mid = (lo + hi) div 2"
    from True have mid: "lo \<le> mid" "mid < hi" by (auto simp: mid_def)
    show ?thesis
    proof (cases "x < a ! mid")
      case lt: True
      have "\<forall>k. mid \<le> k \<and> k < length a \<longrightarrow> x < a ! k"
      proof (intro allI impI)
        fix k assume "mid \<le> k \<and> k < length a"
        with srt have "a ! mid \<le> a ! k" by (simp add: sorted_nth_mono)
        with lt show "x < a ! k" by simp
      qed
      with "1.IH"(1) [OF True mid_def lt] mid "1.prems"
      have "bisect_loop a x lo mid = insertion_point a x" by simp
      with True lt show ?thesis by (simp add: mid_def Let_def)
    next
      case ge: False
      have "\<forall>k<mid + 1. a ! k \<le> x"
      proof (intro allI impI)
        fix k assume "k < mid + 1"
        with mid "1.prems" have "a ! k \<le> a ! mid"
          by (intro sorted_nth_mono) auto
        with ge show "a ! k \<le> x" by simp
      qed
      with "1.IH"(2) [OF True mid_def ge] mid "1.prems"
      have "bisect_loop a x (mid + 1) hi = insertion_point a x" by simp
      with True ge show ?thesis by (simp add: mid_def Let_def)
    qed
  qed
qed

lemma bisect_sorted: "sorted a \<Longrightarrow> bisect a x = insertion_point a x"
  unfolding bisect_def by (rule bisect_loop_sorted) auto

lemma getitem_nth: "k < length l \<Longrightarrow> getitem l (int k) = Inr (l ! k)"
  by (simp add: getitem_def)

lemma getitem_0: "l \<noteq> [] \<Longrightarrow> getitem l 0 = Inr (hd l)"
  by (cases l) (simp_all add: getitem_def)

lemma getitem_minus_1: "l \<noteq> [] \<Longrightarrow> getitem l (- 1) = Inr (last l)"
proof -
  assume "l \<noteq> []"
  then obtain a t where l: "l = a # t" by (cases l) auto
  have "last (a # t) = (a # t) ! length t" by (simp add: last_conv_nth)
  then show ?thesis by (simp add: getitem_def l)
qed

lemma getitem_pred: "0 < k \<Longrightarrow> k \<le> length l \<Longrightarrow> getitem l (int k - 1) = Inr (l ! (k - 1))"
  using getitem_nth [of "k - 1" l] by (simp add: of_nat_diff)

lemma getitem_empty: "getitem [] i = Inl IndexError"
  by (simp add: getitem_def)

lemma insertion_point_le: "insertion_point a x \<le> length a"
  by (simp add: insertion_point_def length_takeWhile_le)

lemma insertion_point_below: "k < insertion_point a x \<Longrightarrow> a ! k \<le> x"
  unfolding insertion_point_def
  by (metis nth_mem set_takeWhileD takeWhile_nth)

lemma insertion_point_above:
  assumes "sorted a" and "insertion_point a x \<le> k" and "k < length a"
  shows "x < a ! k"
proof -
  let ?r = "insertion_point a x"
  from assms have "?r < length a" by simp
  then have "\<not> a ! ?r \<le> x"
    unfolding insertion_point_def by (rule nth_length_takeWhile)
  moreover from assms have "a ! ?r \<le> a ! k"
    by (intro sorted_nth_mono) auto
  ultimately show ?thesis by simp
qed

lemma insertion_point_support:
  assumes "sorted_wrt (<) a" and "k < length a"
  shows "insertion_point a (a ! k) = Suc k"
proof (rule insertion_point_eqI)
  show "Suc k \<le> length a" using assms by simp
next
  fix i assume "i < Suc k"
  with assms show "a ! i \<le> a ! k"
    by (intro sorted_nth_mono strict_sorted_imp_sorted) auto
next
  assume "Suc k < length a"
  with assms show "a ! k < a ! Suc k"
    by (intro sorted_wrt_nth_less) auto
qed

lemma insertion_point_pos: "a \<noteq> [] \<Longrightarrow> hd a \<le> x \<Longrightarrow> 0 < insertion_point a x"
  by (cases a) (simp_all add: insertion_point_def)

lemma Prob_eq:
  assumes "sorted (xs c)" and "xs c \<noteq> []" and "length (ps c) = length (xs c)"
  shows "Prob c x = (if x < hd (xs c) then Inr 0
                     else Inr (ps c ! (insertion_point (xs c) x - 1)))"
proof (cases "x < hd (xs c)")
  case True
  with assms show ?thesis by (simp add: Prob_def getitem_0)
next
  case False
  with assms have "0 < insertion_point (xs c) x"
    by (intro insertion_point_pos) auto
  moreover have "insertion_point (xs c) x \<le> length (ps c)"
    using assms by (simp add: insertion_point_le)
  ultimately have "getitem (ps c) (int (insertion_point (xs c) x) - 1)
                     = Inr (ps c ! (insertion_point (xs c) x - 1))"
    by (rule getitem_pred)
  with False assms show ?thesis
    by (simp add: Prob_def getitem_0 bisect_sorted)
qed

lemma Prob_support:
  assumes "sorted_wrt (<) (xs c)" and "length (ps c) = length (xs c)" and "k < length (xs c)"
  shows "Prob c (xs c ! k) = Inr (ps c ! k)"
proof -
  from assms have ne: "xs c \<noteq> []" by auto
  from assms have srt: "sorted (xs c)" by (simp add: strict_sorted_imp_sorted)
  have "hd (xs c) = xs c ! 0" using ne by (simp add: hd_conv_nth)
  also have "\<dots> \<le> xs c ! k" using srt assms by (intro sorted_nth_mono) auto
  finally have "\<not> xs c ! k < hd (xs c)" by simp
  with assms srt ne show ?thesis
    by (simp add: Prob_eq insertion_point_support)
qed

lemma insertion_point_less:
  assumes "l \<noteq> []" and "p < last l"
  shows "insertion_point l p < length l"
proof (rule ccontr)
  assume "\<not> insertion_point l p < length l"
  with insertion_point_le [of l p] have "insertion_point l p = length l" by simp
  with assms(1) have "l ! (length l - 1) \<le> p"
    by (intro insertion_point_below) simp
  with assms show False by (simp add: last_conv_nth)
qed

lemma Value_index_less:
  assumes "l \<noteq> []" and "p < last l"
  shows "Value_index l p < length l"
  using insertion_point_less [OF assms] by (auto simp: Value_index_def Let_def)

lemma Value_inner:
  assumes "sorted (ps c)" and "ps c \<noteq> []" and "last (ps c) = 1"
    and "length (ps c) = length (xs c)" and "0 < p" and "p < 1"
  shows "Value c p = Inr (xs c ! Value_index (ps c) p)"
proof -
  let ?r = "insertion_point (ps c) p"
  from assms have r: "?r < length (ps c)" by (intro insertion_point_less) auto
  show ?thesis
  proof (cases "?r = 0")
    case True
    with assms have "getitem (ps c) (int ?r - 1) = Inr 1"
      by (simp add: getitem_minus_1)
    with True assms r show ?thesis
      using getitem_nth [of 0 "xs c"]
      by (simp add: Value_def bisect_sorted Value_index_def)
  next
    case False
    with r have "getitem (ps c) (int ?r - 1) = Inr (ps c ! (?r - 1))"
      by (intro getitem_pred) auto
    moreover from False r assms have "getitem (xs c) (int ?r - 1) = Inr (xs c ! (?r - 1))"
      by (intro getitem_pred) auto
    moreover from r assms have "getitem (xs c) (int ?r) = Inr (xs c ! ?r)"
      by (intro getitem_nth) auto
    ultimately show ?thesis
      using False assms by (auto simp: Value_def bisect_sorted Value_index_def Let_def)
  qed
qed

lemma Value_index_ge:
  assumes "sorted l" and "l \<noteq> []" and "p < last l"
  shows "p \<le> l ! Value_index l p"
proof -
  let ?r = "insertion_point l p"
  from assms have "?r < length l" by (intro insertion_point_less)
  with assms have "p < l ! ?r" by (intro insertion_point_above) auto
  then show ?thesis by (auto simp: Value_index_def Let_def)
qed


text \<open>
  C8: for every Cdf satisfying the builder invariants and every \<open>p\<close> in \<open>[0, 1]\<close>,
  \<open>Value(p)\<close> returns a value, \<open>Prob\<close> of that value returns a probability, and this
  probability is at least \<open>p\<close>.
\<close>

theorem Prob_Value_ge:
  assumes "builder_invariants c" and "0 \<le> p" and "p \<le> 1"
  shows "\<exists>v q. Value c p = Inr v \<and> Prob c v = Inr q \<and> p \<le> q"
proof -
  from assms(1) have inv: "sorted_wrt (<) (xs c)" "sorted (ps c)" "\<forall>q \<in> set (ps c). 0 \<le> q"
    "length (ps c) = length (xs c)" "ps c \<noteq> []" "last (ps c) = 1"
    by (auto simp: builder_invariants_def)
  then have ne: "xs c \<noteq> []" by auto
  have sup: "Prob c (xs c ! k) = Inr (ps c ! k)" if "k < length (xs c)" for k
    using inv that by (intro Prob_support) auto
  consider "p = 0" | "p = 1" | "0 < p" "p < 1" using assms by fastforce
  then show ?thesis
  proof cases
    case 1
    from ne have "Value c p = Inr (xs c ! 0)"
      using 1 by (simp add: Value_def getitem_0 hd_conv_nth)
    moreover from ne have "Prob c (xs c ! 0) = Inr (ps c ! 0)" by (intro sup) simp
    moreover from inv have "0 \<le> ps c ! 0" by (metis length_greater_0_conv nth_mem)
    ultimately show ?thesis using 1 by simp
  next
    case 2
    from ne have "Value c p = Inr (xs c ! (length (xs c) - 1))"
      using 2 by (simp add: Value_def getitem_minus_1 last_conv_nth)
    moreover from ne have "Prob c (xs c ! (length (xs c) - 1)) = Inr (ps c ! (length (xs c) - 1))"
      by (intro sup) simp
    moreover from inv have "ps c ! (length (xs c) - 1) = 1" by (metis last_conv_nth)
    ultimately show ?thesis using 2 by simp
  next
    case 3
    let ?k = "Value_index (ps c) p"
    from 3 inv have "Value c p = Inr (xs c ! ?k)" by (intro Value_inner)
    moreover from 3 inv have k: "?k < length (xs c)"
      using Value_index_less [of "ps c" p] by simp
    then have "Prob c (xs c ! ?k) = Inr (ps c ! ?k)" by (rule sup)
    moreover from 3 inv have "p \<le> ps c ! ?k" by (intro Value_index_ge) auto
    ultimately show ?thesis by simp
  qed
qed

theorem Prob_Value_ge_witness:
  "builder_invariants \<lparr>xs = [1, 2, 3], ps = [1 / 6, 1 / 2, 1], name = ''a''\<rparr>
   \<and> (\<exists>v q. Value \<lparr>xs = [1, 2, 3], ps = [1 / 6, 1 / 2, 1], name = ''a''\<rparr> (1 / 3) = Inr v
          \<and> Prob \<lparr>xs = [1, 2, 3], ps = [1 / 6, 1 / 2, 1], name = ''a''\<rparr> v = Inr q
          \<and> 1 / 3 \<le> q)"
  using Prob_Value_ge [of "\<lparr>xs = [1, 2, 3], ps = [1 / 6, 1 / 2, 1], name = ''a''\<rparr>" "1 / 3"]
  by (simp add: builder_invariants_def)

section \<open>Lookups on a built Cdf\<close>

lemma sorted_hd_Min:
  fixes l :: "'a::linorder list"
  assumes "sorted l" and "l \<noteq> []"
  shows "hd l = Min (set l)"
proof -
  from assms obtain a t where l: "l = a # t" by (cases l) auto
  with assms have "\<forall>y \<in> set l. a \<le> y" by auto
  then have "Min (set l) = a" by (intro Min_eqI) (auto simp: l)
  with l show ?thesis by simp
qed

lemma insertion_point_all: "\<forall>v \<in> set l. v \<le> x \<Longrightarrow> insertion_point l x = length l"
proof -
  assume "\<forall>v \<in> set l. v \<le> x"
  then have "takeWhile (\<lambda>v. v \<le> x) l = l" by (simp add: takeWhile_eq_all_conv)
  then show ?thesis by (simp only: insertion_point_def)
qed

lemma running_sums_Nil_iff [simp]: "running_sums r cs = [] \<longleftrightarrow> cs = []"
  by (cases cs) simp_all

lemma last_running_sums: "cs \<noteq> [] \<Longrightarrow> last (running_sums r cs) = r + sum_list cs"
proof (induction cs arbitrary: r)
  case Nil
  then show ?case by simp
next
  case (Cons c cs)
  show ?case
  proof (cases "cs = []")
    case True
    then show ?thesis by simp
  next
    case False
    with Cons.IH [of "r + c"] show ?thesis by (simp add: add.assoc)
  qed
qed

lemma sorted_map_fst_sort: "sorted (map fst (sort items))"
  for items :: "('a::linorder \<times> 'b::linorder) list"
proof -
  have "sorted_wrt (\<lambda>a b. fst a \<le> fst b) (sort items)"
    by (rule sorted_wrt_mono_rel [of _ "(\<le>)"]) (auto simp: less_eq_prod_def)
  then show ?thesis by (simp add: sorted_map)
qed

lemma hist_loop_nonempty: "sq \<noteq> [] \<or> h \<noteq> [] \<Longrightarrow> hist_loop sq h \<noteq> []"
proof (induction sq arbitrary: h)
  case Nil
  then show ?case by simp
next
  case (Cons x rest)
  have "dict_setitem h x v \<noteq> []" for v by (cases h) (auto split: if_splits)
  with Cons.IH show ?case by simp
qed

lemma built_via_MakeCdf:
  assumes "(items \<noteq> [] \<and> MakeCdf items nm = Inr c)
         \<or> (d \<noteq> [] \<and> MakeCdfFromDict d nm = Inr c)
         \<or> (sq \<noteq> [] \<and> MakeCdfFromList sq nm = Inr c)"
  obtains its where "its \<noteq> []" and "MakeCdf its nm = Inr c"
  using assms hist_loop_nonempty [of sq "[]"]
  by (auto simp: MakeCdfFromList_def MakeCdfFromDict_def iteritems_def)

lemma MakeCdf_shape:
  assumes "items \<noteq> []" and "MakeCdf items nm = Inr c"
  shows "sorted (xs c)" and "xs c \<noteq> []" and "length (ps c) = length (xs c)"
    and "last (ps c) = 1" and "ps c \<noteq> []"
proof -
  let ?T = "sum_list (map snd items)"
  from assms have T: "?T \<noteq> 0" by (auto simp: MakeCdf_eq split: if_splits)
  from assms T have c: "c = \<lparr>xs = map fst (sort items),
                ps = map (\<lambda>n. of_int n / of_int ?T) (running_sums 0 (map snd (sort items))),
                name = nm\<rparr>"
    by (simp add: MakeCdf_eq)
  show "sorted (xs c)" by (simp add: c sorted_map_fst_sort)
  from assms(1) have ne: "sort items \<noteq> []" by (metis length_0_conv length_sort)
  then show "xs c \<noteq> []" by (simp add: c)
  show "length (ps c) = length (xs c)" by (simp add: c)
  from ne show "ps c \<noteq> []" by (simp add: c)
  from ne T show "last (ps c) = 1"
    by (simp add: c last_map last_running_sums sum_list_map_sort_key)
qed

text \<open>
  C7: for every Cdf built by any of the three builders from non-empty input, \<open>Prob(x)\<close>
  returns 0 for every \<open>x\<close> strictly below the minimum support value, returns 1 for every
  \<open>x\<close> at or above the maximum support value, and for every \<open>x\<close> at or above the minimum
  returns the cumulative probability at one less than the rightmost insertion point of
  \<open>x\<close> among the values (an insertion point that is positive there).
\<close>

theorem Prob_of_built_Cdf:
  assumes "(items \<noteq> [] \<and> MakeCdf items nm = Inr c)
         \<or> (d \<noteq> [] \<and> MakeCdfFromDict d nm = Inr c)
         \<or> (sq \<noteq> [] \<and> MakeCdfFromList sq nm = Inr c)"
  shows "(x < Min (set (xs c)) \<longrightarrow> Prob c x = Inr 0)
       \<and> (Max (set (xs c)) \<le> x \<longrightarrow> Prob c x = Inr 1)
       \<and> (Min (set (xs c)) \<le> x \<longrightarrow>
            0 < insertion_point (xs c) x
            \<and> Prob c x = Inr (ps c ! (insertion_point (xs c) x - 1)))"
proof -
  from assms obtain its where its: "its \<noteq> []" "MakeCdf its nm = Inr c"
    by (rule built_via_MakeCdf)
  note sh = MakeCdf_shape [OF its]
  then have hd: "hd (xs c) = Min (set (xs c))" by (intro sorted_hd_Min)
  from sh have P: "Prob c x = (if x < Min (set (xs c)) then Inr 0
                     else Inr (ps c ! (insertion_point (xs c) x - 1)))"
    by (simp add: Prob_eq hd)
  have low: "Prob c x = Inr 0" if "x < Min (set (xs c))"
    using that P by simp
  have mid: "0 < insertion_point (xs c) x
       \<and> Prob c x = Inr (ps c ! (insertion_point (xs c) x - 1))" if "Min (set (xs c)) \<le> x"
  proof -
    from that have "\<not> x < Min (set (xs c))" by (simp only: not_less)
    with P have "Prob c x = Inr (ps c ! (insertion_point (xs c) x - 1))"
      by (simp only: if_False)
    moreover from that hd have "hd (xs c) \<le> x" by (simp only:)
    with sh(2) have "0 < insertion_point (xs c) x"
      by (rule insertion_point_pos)
    ultimately show ?thesis by (simp only: simp_thms)
  qed
  have high: "Prob c x = Inr 1" if "Max (set (xs c)) \<le> x"
  proof -
    from that sh have all: "\<forall>v \<in> set (xs c). v \<le> x" by (simp add: Max_le_iff)
    then have "insertion_point (xs c) x = length (xs c)" by (rule insertion_point_all)
    moreover from all sh have "Min (set (xs c)) \<le> x" by (simp add: Min_le_iff)
    moreover from sh have "ps c ! (length (xs c) - 1) = 1" by (metis last_conv_nth)
    ultimately show ?thesis using mid by simp
  qed
  from low mid high show ?thesis by blast
qed

theorem Prob_of_built_Cdf_witness:
  "MakeCdf [(3, 3), (1, 1), (2, 2)] ''a'' = Inr \<lparr>xs = [1, 2, 3], ps = [1 / 6, 1 / 2, 1], name = ''a''\<rparr>
   \<and> Prob \<lparr>xs = [1, 2, 3], ps = [1 / 6, 1 / 2, 1], name = ''a''\<rparr> 0 = Inr 0
   \<and> Prob \<lparr>xs = [1, 2, 3], ps = [1 / 6, 1 / 2, 1], name = ''a''\<rparr> 7 = Inr 1"
proof -
  have m: "MakeCdf [(3, 3), (1, 1), (2, 2)] ''a''
             = Inr \<lparr>xs = [1, 2, 3], ps = [1 / 6, 1 / 2, 1], name = ''a''\<rparr>"
    by (simp add: MakeCdf_def)
  from Prob_of_built_Cdf [of "[(3, 3), (1, 1), (2, 2)]" "''a''"
      "\<lparr>xs = [1, 2, 3], ps = [1 / 6, 1 / 2, 1], name = ''a''\<rparr>" "[]" "[]" 0] m
  have "Prob \<lparr>xs = [1, 2, 3], ps = [1 / 6, 1 / 2, 1], name = ''a''\<rparr> 0 = Inr 0" by simp
  moreover
  from Prob_of_built_Cdf [of "[(3, 3), (1, 1), (2, 2)]" "''a''"
      "\<lparr>xs = [1, 2, 3], ps = [1 / 6, 1 / 2, 1], name = ''a''\<rparr>" "[]" "[]" 7] m
  have "Prob \<lparr>xs = [1, 2, 3], ps = [1 / 6, 1 / 2, 1], name = ''a''\<rparr> 7 = Inr 1" by simp
  ultimately show ?thesis using m by simp
qed

section \<open>The inverse lookup\<close>







section \<open>The invariants the builders establish\<close>

lemma sum_list_pos_nonneg: "\<forall>c \<in> set cs. 0 < c \<Longrightarrow> 0 \<le> sum_list cs"
  for cs :: "int list"
  by (induction cs) auto

lemma running_sums_bounds:
  "\<forall>c \<in> set cs. 0 < c \<Longrightarrow> e \<in> set (running_sums r cs) \<Longrightarrow> r < e \<and> e \<le> r + sum_list cs"
proof (induction cs arbitrary: r)
  case Nil
  then show ?case by simp
next
  case (Cons c cs)
  from Cons.prems have pos: "0 < c" "\<forall>c \<in> set cs. 0 < c" by simp_all
  from Cons.prems consider "e = r + c" | "e \<in> set (running_sums (r + c) cs)" by auto
  then show ?case
  proof cases
    case 1
    with pos sum_list_pos_nonneg [of cs] show ?thesis by simp
  next
    case 2
    with Cons.IH [OF pos(2), of "r + c"] pos show ?thesis by simp
  qed
qed

lemma sorted_running_sums: "\<forall>c \<in> set cs. 0 < c \<Longrightarrow> sorted (running_sums r cs)"
proof (induction cs arbitrary: r)
  case Nil
  then show ?case by simp
next
  case (Cons c cs)
  then have pos: "\<forall>c \<in> set cs. 0 < c" by simp
  have "r + c \<le> e" if "e \<in> set (running_sums (r + c) cs)" for e
    using running_sums_bounds [OF pos that] by simp
  with Cons.IH [OF pos] show ?case by simp
qed

lemma distinct_map_fst_sort:
  "distinct (map fst (sort items)) = distinct (map fst items)"
  for items :: "('a::linorder \<times> 'b::linorder) list"
  by (simp add: distinct_map)

lemma MakeCdf_invariants:
  assumes ne: "items \<noteq> []" and dist: "distinct (map fst items)"
    and pos: "\<forall>n \<in> set (map snd items). 0 < n"
  shows "\<exists>c. MakeCdf items nm = Inr c \<and> builder_invariants c"
proof -
  let ?T = "sum_list (map snd items)"
  let ?rs = "running_sums 0 (map snd (sort items))"
  let ?c = "\<lparr>xs = map fst (sort items), ps = map (\<lambda>n. of_int n / of_int ?T) ?rs, name = nm\<rparr>"
  have pos': "\<forall>n \<in> set (map snd (sort items)). 0 < n" using pos by simp
  have sumT: "sum_list (map snd (sort items)) = ?T" by (rule sum_list_map_sort_key)
  from ne obtain a t where "items = a # t" by (cases items) auto
  with pos sum_list_pos_nonneg [of "map snd t"] have T: "0 < ?T" by simp
  then have made: "MakeCdf items nm = Inr ?c" by (simp add: MakeCdf_eq)
  have sne: "sort items \<noteq> []" using ne by (metis length_0_conv length_sort)
  have bounds: "0 < e \<and> e \<le> ?T" if "e \<in> set ?rs" for e
    using running_sums_bounds [OF pos' that] sumT by simp
  have "sorted_wrt (<) (xs ?c)"
    using dist by (simp add: strict_sorted_iff sorted_map_fst_sort distinct_map_fst_sort)
  moreover have "sorted (ps ?c)"
  proof -
    have "sorted ?rs" using pos' by (rule sorted_running_sums)
    then have "sorted_wrt (\<lambda>a b. (of_int a :: rat) / of_int ?T \<le> of_int b / of_int ?T) ?rs"
      by (rule sorted_wrt_mono_rel [rotated]) (use T in \<open>simp add: divide_right_mono\<close>)
    then show ?thesis by (simp add: sorted_map)
  qed
  moreover have "\<forall>q \<in> set (ps ?c). 0 \<le> q \<and> q \<le> 1"
  proof
    fix q assume "q \<in> set (ps ?c)"
    then obtain e where e: "e \<in> set ?rs" and q: "q = of_int e / of_int ?T" by auto
    from bounds [OF e] T show "0 \<le> q \<and> q \<le> 1" by (simp add: q)
  qed
  moreover have "length (ps ?c) = length (xs ?c)" by simp
  moreover have "ps ?c \<noteq> []" using sne by simp
  moreover have "last (ps ?c) = 1"
    using sne T by (simp add: last_map last_running_sums sumT)
  ultimately have "builder_invariants ?c" by (simp only: builder_invariants_def simp_thms)
  with made show ?thesis by blast
qed

lemma dict_get_Cons:
  "dict_get ((k', v') # h) k dflt = (if k' = k then v' else dict_get h k dflt)"
  by (simp add: dict_get_def)

lemma dict_get_in: "dict_get h k dflt = dflt \<or> dict_get h k dflt \<in> set (map snd h)"
proof (induction h)
  case Nil
  then show ?case by (simp add: dict_get_def)
next
  case (Cons a h)
  obtain k' v' where a: "a = (k', v')" by (cases a)
  with Cons.IH show ?case by (cases "k' = k") (auto simp: dict_get_Cons)
qed

lemma map_fst_dict_setitem:
  "map fst (dict_setitem h k v) = (if k \<in> set (map fst h) then map fst h else map fst h @ [k])"
proof (induction h)
  case Nil
  then show ?case by simp
next
  case (Cons a h)
  obtain k' v' where a: "a = (k', v')" by (cases a)
  show ?case
  proof (cases "k' = k")
    case True
    with a show ?thesis by simp
  next
    case False
    with a Cons.IH show ?thesis by simp
  qed
qed

lemma distinct_dict_setitem:
  "distinct (map fst h) \<Longrightarrow> distinct (map fst (dict_setitem h k v))"
  by (simp only: map_fst_dict_setitem split: if_split) simp

lemma set_snd_dict_setitem:
  "n \<in> set (map snd (dict_setitem h k v)) \<Longrightarrow> n = v \<or> n \<in> set (map snd h)"
proof (induction h)
  case Nil
  then show ?case by simp
next
  case (Cons a h)
  obtain k' v' where a: "a = (k', v')" by (cases a)
  show ?case
  proof (cases "k' = k")
    case True
    with a Cons.prems show ?thesis by auto
  next
    case False
    with a Cons.prems have "n = v' \<or> n \<in> set (map snd (dict_setitem h k v))" by auto
    with Cons.IH a show ?thesis by auto
  qed
qed

lemma hist_loop_invariants:
  "distinct (map fst h) \<Longrightarrow> \<forall>n \<in> set (map snd h). 0 < n
   \<Longrightarrow> distinct (map fst (hist_loop sq h)) \<and> (\<forall>n \<in> set (map snd (hist_loop sq h)). 0 < n)"
proof (induction sq arbitrary: h)
  case Nil
  then show ?case by simp
next
  case (Cons x rest)
  define g where "g = dict_get h x 0"
  define h' where "h' = dict_setitem h x (g + 1)"
  have g: "0 \<le> g"
  proof (cases "g = 0")
    case True
    then show ?thesis by simp
  next
    case False
    with dict_get_in [of h x 0] have "g \<in> set (map snd h)" by (simp add: g_def)
    with Cons.prems(2) have "0 < g" by (rule bspec)
    then show ?thesis by simp
  qed
  from Cons.prems(1) have d: "distinct (map fst h')"
    unfolding h'_def by (rule distinct_dict_setitem)
  have p: "\<forall>n \<in> set (map snd h'). 0 < n"
  proof
    fix n assume "n \<in> set (map snd h')"
    then have "n = g + 1 \<or> n \<in> set (map snd h)"
      unfolding h'_def by (rule set_snd_dict_setitem)
    then show "0 < n"
    proof
      assume "n = g + 1"
      with g show ?thesis by simp
    next
      assume "n \<in> set (map snd h)"
      with Cons.prems(2) show ?thesis by (rule bspec)
    qed
  qed
  have "hist_loop (x # rest) h = hist_loop rest h'"
    by (simp add: h'_def g_def)
  then show ?case using Cons.IH [OF d p] by (rule ssubst)
qed

section \<open>The mean\<close>

lemma weighted_sum_simps [simp]:
  "weighted_sum [] = 0"
  "weighted_sum ((v, n) # its) = of_int n * v + weighted_sum its"
  by (simp_all add: weighted_sum_def)

lemma Mean_loop_running:
  "T \<noteq> 0 \<Longrightarrow>
   Mean_loop (zip (map fst its) (map (\<lambda>n. of_int n / T) (running_sums r (map snd its))))
     (of_int r / T) tot = tot + weighted_sum its / T"
proof (induction its arbitrary: r tot)
  case Nil
  then show ?case by simp
next
  case (Cons a its)
  obtain v n where a: "a = (v, n)" by (cases a)
  have "of_int (r + n) / T - of_int r / T = of_int n / T"
    by (simp add: add_divide_distrib)
  then have step: "(of_int (r + n) / T - of_int r / T) * v = of_int n * v / T"
    by simp
  have "Mean_loop (zip (map fst (a # its))
            (map (\<lambda>n. of_int n / T) (running_sums r (map snd (a # its))))) (of_int r / T) tot
        = Mean_loop (zip (map fst its)
            (map (\<lambda>n. of_int n / T) (running_sums (r + n) (map snd its))))
            (of_int (r + n) / T) (tot + (of_int (r + n) / T - of_int r / T) * v)"
    by (simp add: a)
  also have "\<dots> = tot + (of_int (r + n) / T - of_int r / T) * v + weighted_sum its / T"
    using Cons.prems by (rule Cons.IH)
  also have "\<dots> = tot + weighted_sum (a # its) / T"
    by (simp only: step a weighted_sum_simps add_divide_distrib add.assoc)
  finally show ?case .
qed

lemma weighted_sum_insort: "weighted_sum (insort a l) = weighted_sum [a] + weighted_sum l"
  unfolding weighted_sum_def by (simp add: sum_list_map_insort_key)

lemma weighted_sum_sort: "weighted_sum (sort items) = weighted_sum items"
  unfolding weighted_sum_def by (rule sum_list_map_sort_key)

lemma Mean_MakeCdf:
  assumes "items \<noteq> []" and "MakeCdf items nm = Inr c"
  shows "Mean c = weighted_sum items / of_int (sum_list (map snd items))"
proof -
  let ?T = "sum_list (map snd items)"
  from assms have T: "?T \<noteq> 0" by (auto simp: MakeCdf_eq split: if_splits)
  with assms have c: "c = \<lparr>xs = map fst (sort items),
                ps = map (\<lambda>n. of_int n / of_int ?T) (running_sums 0 (map snd (sort items))),
                name = nm\<rparr>"
    by (simp add: MakeCdf_eq)
  from T have T': "(of_int ?T :: rat) \<noteq> 0" by simp
  have "Mean c = Mean_loop (zip (map fst (sort items))
            (map (\<lambda>n. of_int n / of_int ?T) (running_sums 0 (map snd (sort items)))))
            (of_int 0 / of_int ?T) 0"
    by (simp add: Mean_def c)
  also have "\<dots> = 0 + weighted_sum (sort items) / of_int ?T"
    using T' by (rule Mean_loop_running)
  finally show ?thesis by (simp add: weighted_sum_sort)
qed

lemma weighted_sum_dict_setitem:
  "weighted_sum (dict_setitem h x (dict_get h x 0 + 1)) = weighted_sum h + x"
proof (induction h)
  case Nil
  then show ?case by (simp add: dict_get_def)
next
  case (Cons a h)
  obtain k' v' where a: "a = (k', v')" by (cases a)
  show ?case
  proof (cases "k' = x")
    case True
    with a show ?thesis by (simp add: dict_get_Cons algebra_simps)
  next
    case False
    with a Cons.IH show ?thesis by (simp add: dict_get_Cons)
  qed
qed

lemma count_sum_dict_setitem:
  fixes h :: "(rat, int) dict"
  shows "sum_list (map snd (dict_setitem h x (dict_get h x 0 + 1))) = sum_list (map snd h) + 1"
proof (induction h)
  case Nil
  then show ?case by (simp add: dict_get_def)
next
  case (Cons a h)
  obtain k' v' where a: "a = (k', v')" by (cases a)
  show ?case
  proof (cases "k' = x")
    case True
    with a show ?thesis by (simp add: dict_get_Cons)
  next
    case False
    with a Cons.IH show ?thesis by (simp add: dict_get_Cons)
  qed
qed

lemma hist_loop_weighted_sum:
  "weighted_sum (hist_loop sq h) = weighted_sum h + sum_list sq"
  by (induction sq arbitrary: h) (simp_all add: weighted_sum_dict_setitem)

lemma hist_loop_count_sum:
  "sum_list (map snd (hist_loop sq h)) = sum_list (map snd h) + int (length sq)"
  by (induction sq arbitrary: h) (simp_all add: count_sum_dict_setitem)

text \<open>
  C6: for every non-empty sequence of samples, \<open>MakeCdfFromList\<close> returns a Cdf and
  \<open>Mean\<close> of it equals the arithmetic mean of the raw samples, exactly (in rational
  arithmetic).
\<close>

theorem Mean_of_samples:
  assumes "sq \<noteq> []"
  shows "\<exists>c. MakeCdfFromList sq nm = Inr c \<and> Mean c = sum_list sq / of_nat (length sq)"
proof -
  let ?h = "hist_loop sq []"
  from assms have ne: "?h \<noteq> []" by (intro hist_loop_nonempty) simp
  have cnt: "sum_list (map snd ?h) = int (length sq)"
    by (simp add: hist_loop_count_sum)
  with assms have "sum_list (map snd ?h) \<noteq> 0" by simp
  with ne obtain c where c: "MakeCdf ?h nm = Inr c"
    by (auto simp: MakeCdf_eq)
  from ne c have "Mean c = weighted_sum ?h / of_int (sum_list (map snd ?h))"
    by (rule Mean_MakeCdf)
  then have "Mean c = sum_list sq / of_nat (length sq)"
    by (simp add: cnt hist_loop_weighted_sum)
  with c show ?thesis
    by (simp add: MakeCdfFromList_def MakeCdfFromDict_def iteritems_def)
qed

theorem Mean_of_samples_witness:
  "MakeCdfFromList [1, 2, 2, 3, 3, 3] ''a''
     = Inr \<lparr>xs = [1, 2, 3], ps = [1 / 6, 1 / 2, 1], name = ''a''\<rparr>
   \<and> Mean \<lparr>xs = [1, 2, 3], ps = [1 / 6, 1 / 2, 1], name = ''a''\<rparr> = 7 / 3"
proof -
  have m: "MakeCdfFromList [1, 2, 2, 3, 3, 3] ''a''
             = Inr \<lparr>xs = [1, 2, 3], ps = [1 / 6, 1 / 2, 1], name = ''a''\<rparr>"
    by (simp add: MakeCdfFromList_def MakeCdfFromDict_def iteritems_def dict_get_def MakeCdf_def)
  from Mean_of_samples [of "[1, 2, 2, 3, 3, 3]" "''a''"] m
  show ?thesis by simp
qed

section \<open>The builders within the range of floats\<close>

text \<open>
  With the exact conversion the parametrised builder is \<open>MakeCdf\<close>; with \<open>py_float\<close> it
  returns what \<open>MakeCdf\<close> returns whenever it returns, and it returns whenever the total
  and the running sums are in range.
\<close>

lemma divide_each_in_exact: "divide_each_in exact_float cs t = divide_each cs t"
  by (induction cs) (simp_all add: exact_float_def)

lemma MakeCdf_in_exact: "MakeCdf_in exact_float items nm = MakeCdf items nm"
  by (simp add: MakeCdf_in_def MakeCdf_def divide_each_in_exact exact_float_def split: prod.splits)

lemma divide_each_in_range:
  "\<forall>c \<in> set cs. \<bar>c\<bar> < float_limit \<Longrightarrow> divide_each_in py_float cs t = divide_each cs t"
  by (induction cs) (simp_all add: py_float_def)

lemma divide_each_in_returns:
  "divide_each_in py_float cs t = Inr qs \<Longrightarrow> divide_each cs t = Inr qs"
proof (induction cs arbitrary: qs)
  case Nil
  then show ?case by simp
next
  case (Cons c cs)
  then show ?case
    by (auto simp: py_float_def split: if_splits sum.splits)
qed

lemma MakeCdf_in_returns:
  "MakeCdf_in py_float items nm = Inr c \<Longrightarrow> MakeCdf items nm = Inr c"
  by (auto simp: MakeCdf_in_def MakeCdf_def py_float_def
      split: prod.splits sum.splits if_splits dest: divide_each_in_returns)

lemma MakeCdfFromDict_in_returns:
  "MakeCdfFromDict_in py_float d nm = Inr c \<Longrightarrow> MakeCdfFromDict d nm = Inr c"
  unfolding MakeCdfFromDict_in_def MakeCdfFromDict_def by (rule MakeCdf_in_returns)

lemma MakeCdfFromList_in_returns:
  "MakeCdfFromList_in py_float sq nm = Inr c \<Longrightarrow> MakeCdfFromList sq nm = Inr c"
  unfolding MakeCdfFromList_in_def MakeCdfFromList_def by (rule MakeCdfFromDict_in_returns)

lemma MakeCdf_in_range:
  assumes "\<bar>sum_list (map snd items)\<bar> < float_limit"
    and "\<forall>c \<in> set (running_sums 0 (map snd (sort items))). \<bar>c\<bar> < float_limit"
  shows "MakeCdf_in py_float items nm = MakeCdf items nm"
  using assms
  by (simp add: MakeCdf_in_def MakeCdf_def MakeCdf_loop_eq py_float_def divide_each_in_range
      sum_list_map_sort_key)

lemma MakeCdf_in_range_pos:
  assumes pos: "\<forall>n \<in> set (map snd items). 0 < n"
    and lim: "sum_list (map snd items) < float_limit"
  shows "MakeCdf_in py_float items nm = MakeCdf items nm"
proof (rule MakeCdf_in_range)
  from pos have "0 \<le> sum_list (map snd items)" by (rule sum_list_pos_nonneg)
  with lim show "\<bar>sum_list (map snd items)\<bar> < float_limit" by simp
next
  have pos': "\<forall>n \<in> set (map snd (sort items)). 0 < n" using pos by simp
  have sumT: "sum_list (map snd (sort items)) = sum_list (map snd items)"
    by (rule sum_list_map_sort_key)
  show "\<forall>c \<in> set (running_sums 0 (map snd (sort items))). \<bar>c\<bar> < float_limit"
  proof
    fix c assume "c \<in> set (running_sums 0 (map snd (sort items)))"
    from running_sums_bounds [OF pos' this] sumT lim show "\<bar>c\<bar> < float_limit" by simp
  qed
qed

text \<open>
  C5 as the spec states it, for every positive integer count, is false: a count that
  does not convert to a float makes \<open>total = float(runsum)\<close> raise OverflowError, and no
  Cdf is constructed.
\<close>

theorem MakeCdf_overflow_counterexample:
  "distinct (map fst [(1 :: rat, 10 ^ 400 :: int)]) \<and> (0 :: int) < 10 ^ 400
   \<and> MakeCdf_in py_float [(1, 10 ^ 400)] ''c'' = Inl OverflowError
   \<and> MakeCdfFromDict_in py_float [(1, 10 ^ 400)] ''c'' = Inl OverflowError"
  by (simp add: MakeCdfFromDict_in_def iteritems_def MakeCdf_in_def py_float_def float_limit_def)

text \<open>
  C5, amended: for every non-empty input to any of the three builders (pairs or a mapping
  with distinct values and positive integer counts, or raw samples) whose total count is
  within the range of a float (below \<open>2^1024 - 2^970\<close>), the builder returns a Cdf whose
  values are sorted strictly ascending, whose cumulative probabilities are non-decreasing
  and all within \<open>[0, 1]\<close>, as many as the values, and whose final cumulative probability
  equals 1.
\<close>

theorem builders_establish_invariants_in_float_range:
  assumes "(items \<noteq> [] \<and> distinct (map fst items) \<and> (\<forall>n \<in> set (map snd items). 0 < n)
              \<and> sum_list (map snd items) < float_limit
              \<and> built = MakeCdf_in py_float items nm)
         \<or> (d \<noteq> [] \<and> distinct (map fst d) \<and> (\<forall>n \<in> set (map snd d). 0 < n)
              \<and> sum_list (map snd d) < float_limit
              \<and> built = MakeCdfFromDict_in py_float d nm)
         \<or> (sq \<noteq> [] \<and> int (length sq) < float_limit
              \<and> built = MakeCdfFromList_in py_float sq nm)"
  shows "\<exists>c. built = Inr c \<and> builder_invariants c"
  using assms
proof (elim disjE conjE)
  assume b: "built = MakeCdf_in py_float items nm"
    and pos: "\<forall>n \<in> set (map snd items). 0 < n"
    and lim: "sum_list (map snd items) < float_limit"
  assume "items \<noteq> []" and "distinct (map fst items)"
  then have "\<exists>c. MakeCdf items nm = Inr c \<and> builder_invariants c"
    using pos by (rule MakeCdf_invariants)
  with b MakeCdf_in_range_pos [OF pos lim, of nm] show ?thesis by (simp only:)
next
  assume b: "built = MakeCdfFromDict_in py_float d nm"
    and pos: "\<forall>n \<in> set (map snd d). 0 < n"
    and lim: "sum_list (map snd d) < float_limit"
  assume "d \<noteq> []" and "distinct (map fst d)"
  then have "\<exists>c. MakeCdf d nm = Inr c \<and> builder_invariants c"
    using pos by (rule MakeCdf_invariants)
  with b MakeCdf_in_range_pos [OF pos lim, of nm] show ?thesis
    by (simp only: MakeCdfFromDict_in_def iteritems_def)
next
  assume sq: "sq \<noteq> []" and lim: "int (length sq) < float_limit"
    and b: "built = MakeCdfFromList_in py_float sq nm"
  let ?h = "hist_loop sq []"
  have inv: "distinct (map fst ?h) \<and> (\<forall>n \<in> set (map snd ?h). 0 < n)"
    by (rule hist_loop_invariants) simp_all
  from inv have pos: "\<forall>n \<in> set (map snd ?h). 0 < n" by (rule conjunct2)
  have "sum_list (map snd ?h) = int (length sq)" by (simp add: hist_loop_count_sum)
  with lim have lim': "sum_list (map snd ?h) < float_limit" by simp
  from sq have "?h \<noteq> []" by (intro hist_loop_nonempty) simp
  moreover from inv have "distinct (map fst ?h)" by (rule conjunct1)
  ultimately have "\<exists>c. MakeCdf ?h nm = Inr c \<and> builder_invariants c"
    using pos by (rule MakeCdf_invariants)
  with b MakeCdf_in_range_pos [OF pos lim', of nm] show ?thesis
    by (simp only: MakeCdfFromList_in_def MakeCdfFromDict_in_def iteritems_def)
qed

theorem builders_establish_invariants_in_float_range_witness:
  "MakeCdfFromList_in py_float [1, 2, 2, 3, 3, 3] ''a''
     = Inr \<lparr>xs = [1, 2, 3], ps = [1 / 6, 1 / 2, 1], name = ''a''\<rparr>
   \<and> builder_invariants \<lparr>xs = [1, 2, 3], ps = [1 / 6, 1 / 2, 1], name = ''a''\<rparr>
   \<and> MakeCdf_in py_float [(3, 3), (1, 1), (2, 2)] ''a''
     = Inr \<lparr>xs = [1, 2, 3], ps = [1 / 6, 1 / 2, 1], name = ''a''\<rparr>"
proof -
  have lim: "(6 :: int) < float_limit" by (simp add: float_limit_def)
  have m: "MakeCdfFromList_in py_float [1, 2, 2, 3, 3, 3] ''a''
             = Inr \<lparr>xs = [1, 2, 3], ps = [1 / 6, 1 / 2, 1], name = ''a''\<rparr>"
    using lim
    by (simp add: MakeCdfFromList_in_def MakeCdfFromDict_in_def iteritems_def dict_get_def
        MakeCdf_in_def py_float_def)
  have m2: "MakeCdf_in py_float [(3, 3), (1, 1), (2, 2)] ''a''
     = Inr \<lparr>xs = [1, 2, 3], ps = [1 / 6, 1 / 2, 1], name = ''a''\<rparr>"
    using lim by (simp add: MakeCdf_in_def py_float_def)
  from builders_establish_invariants_in_float_range
    [of "[]" "MakeCdfFromList_in py_float [1, 2, 2, 3, 3, 3] ''a''" "''a''" "[]" "[1, 2, 2, 3, 3, 3]"]
    lim
  have "\<exists>c. MakeCdfFromList_in py_float [1, 2, 2, 3, 3, 3] ''a'' = Inr c \<and> builder_invariants c"
    by simp
  with m m2 show ?thesis by simp
qed

section \<open>Rendering the step function\<close>

lemma doubled_simps [simp]:
  "doubled [] = []"
  "doubled (v # l) = v # v # doubled l"
  by (simp_all add: doubled_def)

lemma length_doubled [simp]: "length (doubled l) = 2 * length l"
  by (induction l) simp_all

lemma count_list_doubled: "count_list (doubled l) v = 2 * count_list l v"
  by (induction l) simp_all

lemma count_list_distinct: "distinct l \<Longrightarrow> v \<in> set l \<Longrightarrow> count_list l v = 1"
  by (induction l) auto

lemma Render_loop_lengths:
  "Render_loop sxs es oxs ops = Inr (rx, rp) \<Longrightarrow> length oxs = length ops
   \<Longrightarrow> length rx = length rp"
proof (induction sxs es oxs ops rule: Render_loop.induct)
  case (1 sxs oxs ops)
  then show ?case by simp
next
  case (2 sxs i p rest oxs ops)
  show ?case
  proof (cases "getitem sxs (int i)")
    case (Inl e)
    with "2.prems" show ?thesis by simp
  next
    case xi: (Inr xi)
    show ?thesis
    proof (cases "getitem sxs (int i + 1)")
      case (Inl e)
      with xi "2.prems" have "Render_loop sxs rest (oxs @ [xi]) (ops @ [p]) = Inr (rx, rp)"
        by simp
      moreover from "2.prems" have "length (oxs @ [xi]) = length (ops @ [p])" by simp
      ultimately show ?thesis using xi Inl by (rule "2.IH"(1) [rotated 2])
    next
      case (Inr xn)
      with xi "2.prems" have "Render_loop sxs rest (oxs @ [xi, xn]) (ops @ [p, p]) = Inr (rx, rp)"
        by simp
      moreover from "2.prems" have "length (oxs @ [xi, xn]) = length (ops @ [p, p])" by simp
      ultimately show ?thesis using xi Inr by (rule "2.IH"(2) [rotated 2])
    qed
  qed
qed

lemma Render_loop_eq:
  "i + length qs = length sxs \<Longrightarrow>
   Render_loop sxs (enumerate i qs) oxs ops
     = Inr (oxs @ tl (doubled (drop i sxs)), ops @ butlast (doubled qs))"
proof (induction qs arbitrary: i oxs ops)
  case Nil
  then show ?case by simp
next
  case (Cons q rest)
  then have i: "i < length sxs" by simp
  then have gi: "getitem sxs (int i) = Inr (sxs ! i)" by (rule getitem_nth)
  from i have di: "drop i sxs = sxs ! i # drop (Suc i) sxs" by (simp add: Cons_nth_drop_Suc)
  show ?case
  proof (cases "rest = []")
    case True
    with Cons.prems have "Suc i = length sxs" by simp
    then have "getitem sxs (int i + 1) = Inl IndexError" by (simp add: getitem_def)
    moreover from \<open>Suc i = length sxs\<close> have "drop (Suc i) sxs = []" by simp
    ultimately show ?thesis using True gi di by simp
  next
    case False
    with Cons.prems have si: "Suc i < length sxs" by (cases rest) simp_all
    then have "getitem sxs (int (Suc i)) = Inr (sxs ! Suc i)" by (rule getitem_nth)
    then have gs: "getitem sxs (int i + 1) = Inr (sxs ! Suc i)" by (simp add: add.commute)
    from si have ds: "drop (Suc i) sxs = sxs ! Suc i # drop (Suc (Suc i)) sxs"
      by (simp add: Cons_nth_drop_Suc)
    from Cons.prems have "Suc i + length rest = length sxs" by simp
    then have "Render_loop sxs (enumerate (Suc i) rest) (oxs @ [sxs ! i, sxs ! Suc i]) (ops @ [q, q])
        = Inr ((oxs @ [sxs ! i, sxs ! Suc i]) @ tl (doubled (drop (Suc i) sxs)),
               (ops @ [q, q]) @ butlast (doubled rest))"
      by (rule Cons.IH)
    moreover from False have "doubled rest \<noteq> []" by (cases rest) simp_all
    ultimately show ?thesis using gi gs di ds by simp
  qed
qed

lemma Render_eq:
  assumes "xs c \<noteq> []" and "length (ps c) = length (xs c)"
  shows "Render c = Inr (doubled (xs c), 0 # butlast (doubled (ps c)))"
proof -
  from assms obtain a t where l: "xs c = a # t" by (cases "xs c") auto
  from assms have "0 + length (ps c) = length (xs c)" by simp
  then have "Render_loop (xs c) (enumerate 0 (ps c)) [a] [0]
        = Inr ([a] @ tl (doubled (drop 0 (xs c))), [0] @ butlast (doubled (ps c)))"
    by (rule Render_loop_eq)
  with l show ?thesis by (simp add: Render_def getitem_def)
qed

text \<open>
  C2 as the spec states it is false at its own example: for values \<open>[1, 2, 3]\<close> and
  probabilities \<open>[1/5, 1/2, 1]\<close> the loop also emits the point \<open>(3, 1)\<close> on its last pass,
  so the output has six points, not five, and the value 3 occurs twice.
\<close>

theorem Render_example_counterexample:
  "Render \<lparr>xs = [1, 2, 3], ps = [1 / 5, 1 / 2, 1], name = ''''\<rparr>
     = Inr ([1, 1, 2, 2, 3, 3], [0, 1 / 5, 1 / 5, 1 / 2, 1 / 2, 1])
   \<and> Render \<lparr>xs = [1, 2, 3], ps = [1 / 5, 1 / 2, 1], name = ''''\<rparr>
     \<noteq> Inr ([1, 1, 2, 2, 3], [0, 1 / 5, 1 / 5, 1 / 2, 1 / 2])
   \<and> count_list [1, 1, 2, 2, 3, 3 :: rat] 3 = 2"
  by (simp add: Render_def getitem_def enumerate_eq_zip upt_rec)

text \<open>
  C2, amended: \<open>Render\<close> on values \<open>[1, 2, 3]\<close> and probabilities \<open>[1/5, 1/2, 1]\<close> returns
  \<open>xs = [1, 1, 2, 2, 3, 3]\<close> and \<open>ps = [0, 1/5, 1/5, 1/2, 1/2, 1]\<close>. Whenever \<open>Render\<close>
  returns, the two sequences have equal length; and for distinct values with as many
  probabilities as values, at least one, it returns and the last support point appears
  exactly twice in the output.
\<close>

theorem Render_step_points:
  "Render \<lparr>xs = [1, 2, 3], ps = [1 / 5, 1 / 2, 1], name = nm\<rparr>
     = Inr ([1, 1, 2, 2, 3, 3], [0, 1 / 5, 1 / 5, 1 / 2, 1 / 2, 1])
   \<and> (\<forall>rx rp. Render c = Inr (rx, rp) \<longrightarrow> length rx = length rp)
   \<and> (xs c \<noteq> [] \<and> distinct (xs c) \<and> length (ps c) = length (xs c) \<longrightarrow>
        (\<exists>rx rp. Render c = Inr (rx, rp) \<and> count_list rx (last (xs c)) = 2))"
proof (intro conjI allI impI)
  show "Render \<lparr>xs = [1, 2, 3], ps = [1 / 5, 1 / 2, 1], name = nm\<rparr>
     = Inr ([1, 1, 2, 2, 3, 3], [0, 1 / 5, 1 / 5, 1 / 2, 1 / 2, 1])"
    by (simp add: Render_eq)
next
  fix rx rp assume r: "Render c = Inr (rx, rp)"
  show "length rx = length rp"
  proof (cases "getitem (xs c) 0")
    case (Inl e)
    with r show ?thesis by (simp add: Render_def)
  next
    case (Inr x0)
    with r have "Render_loop (xs c) (enumerate 0 (ps c)) [x0] [0] = Inr (rx, rp)"
      by (simp add: Render_def)
    then show ?thesis by (rule Render_loop_lengths) simp
  qed
next
  assume a: "xs c \<noteq> [] \<and> distinct (xs c) \<and> length (ps c) = length (xs c)"
  then have "Render c = Inr (doubled (xs c), 0 # butlast (doubled (ps c)))"
    by (intro Render_eq) simp_all
  moreover from a have "count_list (xs c) (last (xs c)) = 1"
    by (intro count_list_distinct) simp_all
  then have "count_list (doubled (xs c)) (last (xs c)) = 2"
    by (simp add: count_list_doubled)
  ultimately show "\<exists>rx rp. Render c = Inr (rx, rp) \<and> count_list rx (last (xs c)) = 2"
    by simp
qed

theorem Render_step_points_witness:
  "Render \<lparr>xs = [1, 2, 3], ps = [1 / 6, 1 / 2, 1], name = ''a''\<rparr>
     = Inr ([1, 1, 2, 2, 3, 3], [0, 1 / 6, 1 / 6, 1 / 2, 1 / 2, 1])
   \<and> length [1, 1, 2, 2, 3, 3 :: rat] = length [0, 1 / 6, 1 / 6, 1 / 2, 1 / 2, 1 :: rat]
   \<and> (\<exists>rx rp. Render \<lparr>xs = [1, 2, 3], ps = [1 / 6, 1 / 2, 1], name = ''a''\<rparr> = Inr (rx, rp)
         \<and> count_list rx 3 = 2)"
proof -
  have r: "Render \<lparr>xs = [1, 2, 3], ps = [1 / 6, 1 / 2, 1], name = ''a''\<rparr>
     = Inr ([1, 1, 2, 2, 3, 3], [0, 1 / 6, 1 / 6, 1 / 2, 1 / 2, 1])"
    by (simp add: Render_def getitem_def enumerate_eq_zip upt_rec)
  from Render_step_points [of "''a''" "\<lparr>xs = [1, 2, 3], ps = [1 / 6, 1 / 2, 1], name = ''a''\<rparr>"]
  have "\<exists>rx rp. Render \<lparr>xs = [1, 2, 3], ps = [1 / 6, 1 / 2, 1], name = ''a''\<rparr> = Inr (rx, rp)
         \<and> count_list rx 3 = 2"
    by simp
  with r show ?thesis by simp
qed

end
